theory Spec2Isabelle
  imports Main "HOL-Library.Word" "HOL-Library.Multiset"
begin

unbundle bit_operations_syntax

section \<open>Data model\<close>

text \<open>
  The decryption test script works on Python \<open>bytes\<close> values: immutable sequences of
  integers in the range 0..255.  A byte is an 8-bit word, a byte string a list of them.
  The RC4 state array \<open>S\<close> is an ordinary Python list of integers and is modelled as a
  list of natural numbers; the running indices \<open>i\<close> and \<open>j\<close> are natural numbers reduced
  modulo 256 exactly where the source reduces them.

  A Python exception leaving a function is the left injection of a sum type.
\<close>

type_synonym byte = "8 word"

datatype py_error = ZeroDivisionError | OSError

section \<open>xor\_decrypt\<close>

text \<open>
  \<^verbatim>\<open>
  def xor_decrypt(data, key):
      out = bytearray()
      key_len = len(key)
      for i, byte in enumerate(data):
          out.append(byte ^ key[i % key_len])
      return bytes(out)
  \<close>
  The modulo \<open>i % key_len\<close> is evaluated once per iteration, so with an empty key it
  raises \<open>ZeroDivisionError\<close> in the first iteration, and is never evaluated when
  \<open>data\<close> is empty.  With a non-empty key the index \<open>i % key_len\<close> is in range.
\<close>

fun xor_loop :: "nat \<Rightarrow> byte list \<Rightarrow> byte list \<Rightarrow> byte list \<Rightarrow> py_error + byte list" where
  "xor_loop i [] key out = Inr out"
| "xor_loop i (b # data) key out =
     (if length key = 0 then Inl ZeroDivisionError
      else xor_loop (i + 1) data key (out @ [b XOR key ! (i mod length key)]))"

definition xor_decrypt :: "byte list \<Rightarrow> byte list \<Rightarrow> py_error + byte list" where
  "xor_decrypt data key = xor_loop 0 data key []"

section \<open>is\_valid\_mp3\<close>

text \<open>
  \<^verbatim>\<open>
  def is_valid_mp3(data):
      if len(data) < 4:
          return False
      if data[:3] == b'ID3':
          return True
      if data[0] == 0xFF and (data[1] & 0xE0) == 0xE0:
          return True
      return False
  \<close>
  The bytes of \<open>b'ID3'\<close> are 0x49, 0x44, 0x33.  Both index reads happen only after the
  length check, so they are in range.
\<close>

definition is_valid_mp3 :: "byte list \<Rightarrow> bool" where
  "is_valid_mp3 data =
     (if length data < 4 then False
      else if take 3 data = [0x49, 0x44, 0x33] then True
      else if data ! 0 = 0xFF \<and> (data ! 1) AND 0xE0 = 0xE0 then True
      else False)"

section \<open>rc4\_decrypt and rc4mi\_decrypt\<close>

text \<open>
  \<^verbatim>\<open>
  def rc4_decrypt(data, key):
      S = list(range(256))
      j = 0
      for i in range(256):
          j = (j + S[i] + key[i % len(key)]) % 256
          S[i], S[j] = S[j], S[i]
      i = j = 0
      out = bytearray()
      for byte in data:
          i = (i + 1) % 256
          j = (j + S[i]) % 256
          S[i], S[j] = S[j], S[i]
          out.append(byte ^ S[(S[i] + S[j]) % 256])
      return bytes(out)
  \<close>
  The key-scheduling loop is a recursion over the values of \<open>range(256)\<close>.  Its first
  iteration evaluates \<open>i % len(key)\<close>, which raises \<open>ZeroDivisionError\<close> for an empty
  key.  The tuple assignment \<open>S[i], S[j] = S[j], S[i]\<close> reads both old entries before it
  writes \<open>S[i]\<close> and then \<open>S[j]\<close>, which is the double list update below.  All indices are
  reduced modulo 256 and \<open>S\<close> keeps its 256 entries, so no read or write is out of range
  (lemmas \<open>ksa_loop_perm\<close> and \<open>prga_step_perm\<close>).
\<close>

type_synonym rc4_state = "nat \<times> nat \<times> nat list"

fun ksa_loop :: "nat list \<Rightarrow> byte list \<Rightarrow> nat \<Rightarrow> nat list \<Rightarrow> py_error + nat \<times> nat list" where
  "ksa_loop [] key j S = Inr (j, S)"
| "ksa_loop (i # is) key j S =
     (if length key = 0 then Inl ZeroDivisionError
      else let j' = (j + S ! i + unat (key ! (i mod length key))) mod 256
           in ksa_loop is key j' (S[i := S ! j', j' := S ! i]))"

text \<open>
  One round of the swap-and-index update shared by the warm-up loop and the keystream
  loop: the three statements \<open>i = (i + 1) % 256\<close>, \<open>j = (j + S[i]) % 256\<close> and
  \<open>S[i], S[j] = S[j], S[i]\<close>.
\<close>

definition prga_step :: "nat \<Rightarrow> nat \<Rightarrow> nat list \<Rightarrow> rc4_state" where
  "prga_step i j S =
     (let i' = (i + 1) mod 256;
          j' = (j + S ! i') mod 256
      in (i', j', S[i' := S ! j', j' := S ! i']))"

text \<open>
  The keystream loop \<open>for byte in data\<close>.  \<open>bytearray.append\<close> takes an integer in
  0..255; the entries of \<open>S\<close> are such integers, so the exclusive or of the byte with the
  selected entry is the exclusive or of two 8-bit words.
\<close>

fun prga_loop :: "byte list \<Rightarrow> rc4_state \<Rightarrow> byte list \<Rightarrow> rc4_state \<times> byte list" where
  "prga_loop [] st out = (st, out)"
| "prga_loop (b # data) (i, j, S) out =
     (case prga_step i j S of (i', j', S') \<Rightarrow>
        prga_loop data (i', j', S')
          (out @ [b XOR of_nat (S' ! ((S' ! i' + S' ! j') mod 256))]))"

definition rc4_decrypt :: "byte list \<Rightarrow> byte list \<Rightarrow> py_error + byte list" where
  "rc4_decrypt data key =
     (case ksa_loop [0..<256] key 0 [0..<256] of
        Inl e \<Rightarrow> Inl e
      | Inr (j, S) \<Rightarrow> Inr (snd (prga_loop data (0, 0, S) [])))"

text \<open>
  \<^verbatim>\<open>
  def rc4mi_decrypt(data, key):
      ... same key schedule ...
      i = j = 0
      for _ in range(1024):
          i = (i + 1) % 256
          j = (j + S[i]) % 256
          S[i], S[j] = S[j], S[i]
      out = bytearray()
      for byte in data:
          ... same keystream loop ...
      return bytes(out)
  \<close>
  The warm-up loop \<open>for _ in range(n)\<close> is a recursion on the number of rounds left.
\<close>

fun warmup_loop :: "nat \<Rightarrow> rc4_state \<Rightarrow> rc4_state" where
  "warmup_loop 0 st = st"
| "warmup_loop (Suc n) (i, j, S) = warmup_loop n (prga_step i j S)"

definition rc4mi_decrypt :: "byte list \<Rightarrow> byte list \<Rightarrow> py_error + byte list" where
  "rc4mi_decrypt data key =
     (case ksa_loop [0..<256] key 0 [0..<256] of
        Inl e \<Rightarrow> Inl e
      | Inr (j, S) \<Rightarrow> Inr (snd (prga_loop data (warmup_loop 1024 (0, 0, S)) [])))"

text \<open>
  The first \<open>n\<close> keystream bytes of standard RC4 under a key are what \<open>rc4_decrypt\<close>
  returns for \<open>n\<close> zero bytes.
\<close>

definition keystream :: "nat \<Rightarrow> byte list \<Rightarrow> py_error + byte list" where
  "keystream n key = rc4_decrypt (replicate n 0) key"

section \<open>The AES trials\<close>

text \<open>
  \<^verbatim>\<open>
  def aes_ecb_decrypt(data, key):
      try:
          cipher = AES.new(key, AES.MODE_ECB)
          padded_len = (len(data) + 15) // 16 * 16
          padded_data = data + b'\x00' * (padded_len - len(data))
          return cipher.decrypt(padded_data)[:len(data)]
      except Exception as e:
          return f"Error: {e}".encode()
  \<close>
  \<open>Crypto.Cipher.AES\<close> is an external library.  It is a parameter of the model: a
  record of the two operations the script calls.  \<open>aes_new\<close> stands for \<open>AES.new\<close> and
  \<open>aes_decrypt\<close> for the \<open>decrypt\<close> method of the cipher object; either returns
  \<open>Inl msg\<close> when the library raises an exception whose text is \<open>msg\<close>.  The \<open>except\<close>
  clause turns every such exception into the returned byte string \<open>Error: msg\<close>, so
  the three AES functions never raise.
\<close>

datatype aes_mode = MODE_ECB | MODE_CBC "byte list" | MODE_CTR "byte list"

record 'c aes_library =
  aes_new :: "byte list \<Rightarrow> aes_mode \<Rightarrow> string + 'c"
  aes_decrypt :: "'c \<Rightarrow> byte list \<Rightarrow> string + byte list"

definition encode :: "string \<Rightarrow> byte list" where
  "encode s = map of_char s"

definition error_bytes :: "string \<Rightarrow> byte list" where
  "error_bytes e = encode (''Error: '' @ e)"

definition padded_data :: "byte list \<Rightarrow> byte list" where
  "padded_data data =
     (let padded_len = (length data + 15) div 16 * 16
      in data @ replicate (padded_len - length data) 0)"

definition aes_ecb_decrypt :: "'c aes_library \<Rightarrow> byte list \<Rightarrow> byte list \<Rightarrow> byte list" where
  "aes_ecb_decrypt L data key =
     (case aes_new L key MODE_ECB of
        Inl e \<Rightarrow> error_bytes e
      | Inr cipher \<Rightarrow>
          (case aes_decrypt L cipher (padded_data data) of
             Inl e \<Rightarrow> error_bytes e
           | Inr plain \<Rightarrow> take (length data) plain))"

text \<open>
  \<^verbatim>\<open>
  def aes_cbc_decrypt(data, key, iv=None):
      try:
          if iv is None:
              iv = b'\x00' * 16
          cipher = AES.new(key, AES.MODE_CBC, iv)
          ... as for ECB ...
  def aes_ctr_decrypt(data, key, nonce=None):
      try:
          if nonce is None:
              nonce = b'\x00' * 8
          cipher = AES.new(key, AES.MODE_CTR, nonce=nonce)
          return cipher.decrypt(data)
      except Exception as e:
          return f"Error: {e}".encode()
  \<close>
\<close>

definition aes_cbc_decrypt ::
  "'c aes_library \<Rightarrow> byte list \<Rightarrow> byte list \<Rightarrow> byte list option \<Rightarrow> byte list" where
  "aes_cbc_decrypt L data key iv =
     (let iv' = (case iv of None \<Rightarrow> replicate 16 0 | Some v \<Rightarrow> v)
      in case aes_new L key (MODE_CBC iv') of
           Inl e \<Rightarrow> error_bytes e
         | Inr cipher \<Rightarrow>
             (case aes_decrypt L cipher (padded_data data) of
                Inl e \<Rightarrow> error_bytes e
              | Inr plain \<Rightarrow> take (length data) plain))"

definition aes_ctr_decrypt ::
  "'c aes_library \<Rightarrow> byte list \<Rightarrow> byte list \<Rightarrow> byte list option \<Rightarrow> byte list" where
  "aes_ctr_decrypt L data key nonce =
     (let nonce' = (case nonce of None \<Rightarrow> replicate 8 0 | Some v \<Rightarrow> v)
      in case aes_new L key (MODE_CTR nonce') of
           Inl e \<Rightarrow> error_bytes e
         | Inr cipher \<Rightarrow>
             (case aes_decrypt L cipher data of
                Inl e \<Rightarrow> error_bytes e
              | Inr plain \<Rightarrow> plain))"

text \<open>
  What the script relies on when it calls the library with a 16-byte key: \<open>AES.new\<close>
  accepts the key in ECB mode and, with a 16-byte initialisation vector, in CBC mode,
  and \<open>decrypt\<close> maps an input whose length is a multiple of 16 to an output of the same
  length.
\<close>

definition aes128_contract :: "'c aes_library \<Rightarrow> bool" where
  "aes128_contract L \<longleftrightarrow>
     (\<forall>key. length key = 16 \<longrightarrow> (\<exists>c. aes_new L key MODE_ECB = Inr c)) \<and>
     (\<forall>key iv. length key = 16 \<and> length iv = 16 \<longrightarrow> (\<exists>c. aes_new L key (MODE_CBC iv) = Inr c)) \<and>
     (\<forall>c data. 16 dvd length data \<longrightarrow>
        (\<exists>p. aes_decrypt L c data = Inr p \<and> length p = length data))"

text \<open>
  A concrete instance of the library interface, used where a statement about an
  arbitrary library is applied to one.  It has the length checks of the library the
  script imports (keys of 16, 24 or 32 bytes, a 16-byte initialisation vector, block
  aligned input in ECB and CBC mode) with that library's message for a rejected key; the
  block transformation itself is left out (the data is returned as it is), since no
  statement below depends on it.
\<close>

fun decimal :: "nat \<Rightarrow> string" where
  "decimal n =
     (if n < 10 then [''0123456789'' ! n]
      else decimal (n div 10) @ [''0123456789'' ! (n mod 10)])"

declare decimal.simps [simp del]

definition length_checking_aes :: "aes_mode aes_library" where
  "length_checking_aes =
     \<lparr> aes_new = (\<lambda>key mode.
         if length key \<notin> {16, 24, 32}
         then Inl (''Incorrect AES key length ('' @ decimal (length key) @ '' bytes)'')
         else (case mode of
                 MODE_CBC iv \<Rightarrow>
                   if length iv = 16 then Inr mode
                   else Inl ''Incorrect IV length (it must be 16 bytes long)''
               | _ \<Rightarrow> Inr mode)),
       aes_decrypt = (\<lambda>cipher data.
         case cipher of
           MODE_CTR nonce \<Rightarrow> Inr data
         | _ \<Rightarrow>
             if 16 dvd length data then Inr data
             else Inl ''Data must be aligned to block boundary'') \<rparr>"

section \<open>Key handling in main\<close>


























section \<open>The trial loop of main\<close>

text \<open>
  \<^verbatim>\<open>
  methods = [
      ("... XOR", lambda d, k: xor_decrypt(d, k)),
      ("... RC4", lambda d, k: rc4_decrypt(d, k)),
      ("... RC4 (1024...)", lambda d, k: rc4mi_decrypt(d, k)),
      ("AES-128-ECB", lambda d, k: aes_ecb_decrypt(d, k)),
      ("AES-128-CBC (IV=0)", lambda d, k: aes_cbc_decrypt(d, k)),
      ("AES-128-CTR (nonce=0)", lambda d, k: aes_ctr_decrypt(d, k)),
  ]
  for name, decrypt_func in methods:
      print(f"\n--- {name} ---")
      try:
          decrypted = decrypt_func(encrypted_data, secure_key)
          print(f"... (hex): {print_hex(decrypted)}")
          try:
              ascii_preview = decrypted[:32].decode('latin-1')
              print(f"... (ascii): {repr(ascii_preview)}")
          except:
              pass
          if is_valid_mp3(decrypted):
              print(...)
              output_file = f"/tmp/decrypted_{...name...}.mp3"
              with open(output_file, 'wb') as f:
                  f.write(decrypted)
              print(...)
          else:
              print(...)
      except Exception as e:
          print(f"... {e}")
  \<close>
  The labels of the six entries are the values of \<open>method_name\<close>, in the order of the
  list (the first three labels contain non-ASCII text in the source, elided above).
  The effects of the loop are the lines it prints and the files it writes.  Both are
  kept in an explicit state: a log of events, one per \<open>print\<close>, and the list of files
  written.  The previews show the first 32 bytes (\<open>print_hex\<close> has \<open>length=32\<close>, the
  latin-1 decoding of a byte string cannot fail).  Whether a file can be written
  belongs to the environment and is the parameter \<open>writable\<close>; a failure there is
  \<open>OSError\<close>.  An exception raised inside the \<open>try\<close> block keeps what was printed
  before it and is handled by the \<open>except\<close> clause of the same iteration.
\<close>

datatype method_name = SimpleXOR | StandardRC4 | XiaomiRC4 | AES128ECB | AES128CBC | AES128CTR

datatype 'n event =
    Header 'n
  | DecryptedHex "byte list"
  | DecryptedAscii "byte list"
  | ValidMp3
  | SavedTo 'n
  | NotValidMp3
  | DecryptFailed py_error

record 'n trial_state =
  log :: "'n event list"
  files :: "('n \<times> byte list) list"

type_synonym decrypt_func = "byte list \<Rightarrow> byte list \<Rightarrow> py_error + byte list"

definition emit :: "'n event \<Rightarrow> 'n trial_state \<Rightarrow> 'n trial_state" where
  "emit e st = st\<lparr>log := log st @ [e]\<rparr>"

definition try_block ::
  "('n \<Rightarrow> bool) \<Rightarrow> 'n \<Rightarrow> decrypt_func \<Rightarrow> byte list \<Rightarrow> byte list \<Rightarrow> 'n trial_state
     \<Rightarrow> 'n trial_state \<times> py_error option" where
  "try_block writable name decrypt_func data key st =
     (case decrypt_func data key of
        Inl e \<Rightarrow> (st, Some e)
      | Inr decrypted \<Rightarrow>
          (let st1 = emit (DecryptedHex (take 32 decrypted)) st;
               st2 = emit (DecryptedAscii (take 32 decrypted)) st1
           in if is_valid_mp3 decrypted
              then (let st3 = emit ValidMp3 st2
                    in if writable name
                       then (emit (SavedTo name) (st3\<lparr>files := files st3 @ [(name, decrypted)]\<rparr>), None)
                       else (st3, Some OSError))
              else (emit NotValidMp3 st2, None)))"

definition trial ::
  "('n \<Rightarrow> bool) \<Rightarrow> 'n \<Rightarrow> decrypt_func \<Rightarrow> byte list \<Rightarrow> byte list \<Rightarrow> 'n trial_state
     \<Rightarrow> 'n trial_state" where
  "trial writable name decrypt_func data key st =
     (case try_block writable name decrypt_func data key (emit (Header name) st) of
        (st', None) \<Rightarrow> st'
      | (st', Some e) \<Rightarrow> emit (DecryptFailed e) st')"



definition empty_state :: "'n trial_state" where
  "empty_state = \<lparr>log = [], files = []\<rparr>"

section \<open>Properties of the content validator\<close>

text \<open>
  C2.  The validator accepts a byte sequence exactly when it has at least four bytes and
  either starts with the three bytes of the tag ID3 or starts with 0xFF followed by a
  byte whose top three bits are all set.  In particular every input shorter than four
  bytes and every all-zero input of any length is rejected, and every input of at least
  four bytes that begins with ID3 is accepted.
\<close>

theorem is_valid_mp3_iff:
  "(is_valid_mp3 data \<longleftrightarrow>
      4 \<le> length data \<and>
      (take 3 data = [0x49, 0x44, 0x33] \<or>
       (data ! 0 = 0xFF \<and> (data ! 1) AND 0xE0 = 0xE0)))
   \<and> (length data < 4 \<longrightarrow> \<not> is_valid_mp3 data)
   \<and> \<not> is_valid_mp3 (replicate n 0)
   \<and> (4 \<le> length ([0x49, 0x44, 0x33] @ rest) \<longrightarrow> is_valid_mp3 ([0x49, 0x44, 0x33] @ rest))"
proof -
  have iff: "is_valid_mp3 data \<longleftrightarrow>
      4 \<le> length data \<and>
      (take 3 data = [0x49, 0x44, 0x33] \<or>
       (data ! 0 = 0xFF \<and> (data ! 1) AND 0xE0 = 0xE0))"
    unfolding is_valid_mp3_def by (simp add: not_less)
  have short: "length data < 4 \<longrightarrow> \<not> is_valid_mp3 data"
    unfolding is_valid_mp3_def by simp
  have zero: "\<not> is_valid_mp3 (replicate n (0::byte))"
  proof (cases "n < 4")
    case True
    then show ?thesis by (simp add: is_valid_mp3_def)
  next
    case False
    have "replicate 3 (0::byte) = [0, 0, 0]"
      by (simp add: numeral_3_eq_3)
    then have r3: "replicate 3 (0::byte) \<noteq> [0x49, 0x44, 0x33]"
      by simp
    from False have hd: "replicate n (0::byte) ! 0 \<noteq> 0xFF" by simp
    from False r3 hd show ?thesis by (simp add: is_valid_mp3_def)
  qed
  have id3: "4 \<le> length ([0x49, 0x44, 0x33] @ rest) \<longrightarrow>
      is_valid_mp3 ([0x49, 0x44, 0x33] @ rest)"
    unfolding is_valid_mp3_def by simp
  from iff short zero id3 show ?thesis by blast
qed

theorem is_valid_mp3_iff_witness:
  "is_valid_mp3 [0xFF, 0xFB, 0x90, 0x00]
   \<and> \<not> is_valid_mp3 [0x49, 0x44, 0x33]
   \<and> \<not> is_valid_mp3 [0, 0, 0, 0, 0]
   \<and> is_valid_mp3 [0x49, 0x44, 0x33, 0x04, 0x00, 0x00]"
proof -
  have a: "is_valid_mp3 [0xFF, 0xFB, 0x90, 0x00]"
    using is_valid_mp3_iff [of "[0xFF, 0xFB, 0x90, 0x00]" 0 "[]"] by simp
  have b: "\<not> is_valid_mp3 [0x49, 0x44, 0x33]"
    using is_valid_mp3_iff [of "[0x49, 0x44, 0x33]" 0 "[]"] by simp
  have c: "\<not> is_valid_mp3 [0, 0, 0, 0, 0]"
    proof -
    have "replicate 5 (0::byte) = [0, 0, 0, 0, 0]"
      by (simp add: eval_nat_numeral)
    then show ?thesis
      using is_valid_mp3_iff [of "[]" 5 "[]"] by simp
  qed
  have d: "is_valid_mp3 [0x49, 0x44, 0x33, 0x04, 0x00, 0x00]"
    using is_valid_mp3_iff [of "[]" 0 "[0x04, 0x00, 0x00]"] by simp
  from a b c d show ?thesis by simp
qed

section \<open>Properties of xor\_decrypt\<close>

lemma xor_twice:
  "length ks = length data \<Longrightarrow> map2 (XOR) (map2 (XOR) data ks) ks = (data :: byte list)"
proof (induction data arbitrary: ks)
  case Nil
  then show ?case by simp
next
  case (Cons b data)
  then obtain k ks' where ks: "ks = k # ks'" and len: "length ks' = length data"
    by (cases ks) auto
  have "(b XOR k) XOR k = b"
    by (simp add: xor.assoc)
  with Cons.IH [OF len] show ?case by (simp add: ks)
qed

lemma xor_loop_eq:
  "key \<noteq> [] \<Longrightarrow>
   xor_loop i data key out =
     Inr (out @ map2 (XOR) data (map (\<lambda>k. key ! (k mod length key)) [i..<i + length data]))"
proof (induction data arbitrary: i out)
  case Nil
  then show ?case by simp
next
  case (Cons b data)
  have "[i..<i + length (b # data)] = i # [Suc i..<Suc i + length data]"
    by (simp add: upt_rec)
  with Cons show ?case by simp
qed

lemma xor_decrypt_eq:
  "key \<noteq> [] \<Longrightarrow>
   xor_decrypt data key =
     Inr (map2 (XOR) data (map (\<lambda>k. key ! (k mod length key)) [0..<length data]))"
  using xor_loop_eq [of key 0 data "[]"] by (simp add: xor_decrypt_def)

text \<open>
  C7.  XOR round trip: for every ciphertext \<open>C\<close> and every non-empty key \<open>K\<close>,
  \<open>xor_decrypt\<close> returns a byte string \<open>P\<close> of the length of \<open>C\<close>, and applying
  \<open>xor_decrypt\<close> with the same key to \<open>P\<close> returns exactly \<open>C\<close>.  (The law holds for the
  empty ciphertext as well.)
\<close>

theorem xor_round_trip:
  assumes "K \<noteq> []"
  shows "\<exists>P. xor_decrypt C K = Inr P \<and> length P = length C \<and> xor_decrypt P K = Inr C"
proof -
  let ?ks = "map (\<lambda>k. K ! (k mod length K)) [0..<length C]"
  let ?P = "map2 (XOR) C ?ks"
  have P: "xor_decrypt C K = Inr ?P"
    using assms by (rule xor_decrypt_eq)
  have len: "length ?P = length C" by simp
  have "xor_decrypt ?P K = Inr (map2 (XOR) ?P (map (\<lambda>k. K ! (k mod length K)) [0..<length ?P]))"
    using assms by (rule xor_decrypt_eq)
  also have "\<dots> = Inr (map2 (XOR) ?P ?ks)"
    by (simp only: len)
  also have "\<dots> = Inr C"
    by (simp add: xor_twice)
  finally show ?thesis using P len by blast
qed

theorem xor_round_trip_witness:
  "xor_decrypt [0x49, 0x44, 0x33, 0x04, 0x00] [0xAA, 0xBB] = Inr [0xE3, 0xFF, 0x99, 0xBF, 0xAA]
   \<and> xor_decrypt [0xE3, 0xFF, 0x99, 0xBF, 0xAA] [0xAA, 0xBB] = Inr [0x49, 0x44, 0x33, 0x04, 0x00]"
proof -
  have ne: "[0xAA, 0xBB :: byte] \<noteq> []" by simp
  have P: "xor_decrypt [0x49, 0x44, 0x33, 0x04, 0x00] [0xAA, 0xBB] = Inr [0xE3, 0xFF, 0x99, 0xBF, 0xAA]"
    by code_simp
  from xor_round_trip [OF ne, of "[0x49, 0x44, 0x33, 0x04, 0x00]"] P
  show ?thesis by simp
qed

section \<open>Properties of the RC4 loops\<close>

lemma perm_length: "mset S = mset [0..<256] \<Longrightarrow> length S = 256"
  using mset_eq_length by fastforce

lemma perm_entries: "mset S = mset [0..<256] \<Longrightarrow> k < 256 \<Longrightarrow> S ! k < 256"
proof -
  assume p: "mset S = mset [0..<256]" and k: "k < 256"
  then have "S ! k \<in> set S" using perm_length [OF p] by simp
  also have "set S = set [0..<256]" using p by (rule mset_eq_setD)
  finally show ?thesis by simp
qed

lemma swap_perm:
  "mset S = mset [0..<256] \<Longrightarrow> i < 256 \<Longrightarrow> j < 256 \<Longrightarrow>
   mset (S[i := S ! j, j := S ! i]) = mset [0..<256]"
  using perm_length [of S] by (simp add: mset_swap)

lemma ksa_loop_perm:
  "key \<noteq> [] \<Longrightarrow> mset S = mset [0..<256] \<Longrightarrow> \<forall>i \<in> set is. i < 256 \<Longrightarrow>
   \<exists>j' S'. ksa_loop is key j S = Inr (j', S') \<and> mset S' = mset [0..<256]"
proof (induction "is" arbitrary: j S)
  case Nil
  then show ?case by simp
next
  case (Cons i "is")
  let ?j = "(j + S ! i + unat (key ! (i mod length key))) mod 256"
  have "mset (S[i := S ! ?j, ?j := S ! i]) = mset [0..<256]"
    using Cons.prems by (intro swap_perm) simp_all
  from Cons.IH [OF Cons.prems(1) this, of ?j] Cons.prems show ?case
    by (simp add: Let_def)
qed

lemma prga_step_perm:
  assumes "mset S = mset [0..<256]" and "prga_step i j S = (i', j', S')"
  shows "mset S' = mset [0..<256] \<and> i' < 256 \<and> j' < 256"
proof -
  let ?i = "(i + 1) mod 256"
  let ?j = "(j + S ! ?i) mod 256"
  from assms(2) have eq: "i' = ?i" "j' = ?j" "S' = S[?i := S ! ?j, ?j := S ! ?i]"
    by (auto simp: prga_step_def Let_def)
  have "mset (S[?i := S ! ?j, ?j := S ! ?i]) = mset [0..<256]"
    using assms(1) by (rule swap_perm) simp_all
  with eq show ?thesis by simp
qed

lemma warmup_loop_perm:
  "mset S = mset [0..<256] \<Longrightarrow> warmup_loop n (i, j, S) = (i', j', S') \<Longrightarrow>
   mset S' = mset [0..<256]"
proof (induction n arbitrary: i j S)
  case 0
  then show ?case by simp
next
  case (Suc n)
  obtain i1 j1 S1 where st: "prga_step i j S = (i1, j1, S1)"
    by (cases "prga_step i j S") auto
  from prga_step_perm [OF Suc.prems(1) st] have "mset S1 = mset [0..<256]" by simp
  from Suc.IH [OF this] Suc.prems(2) st show ?case by simp
qed

lemma prga_loop_state:
  "fst (prga_loop data (i, j, S) out) = warmup_loop (length data) (i, j, S)"
proof (induction data arbitrary: i j S out)
  case Nil
  then show ?case by simp
next
  case (Cons b data)
  obtain i1 j1 S1 where st: "prga_step i j S = (i1, j1, S1)"
    by (cases "prga_step i j S") auto
  show ?case by (simp add: st Cons.IH)
qed

lemma prga_loop_out:
  "snd (prga_loop data (i, j, S) out) = out @ snd (prga_loop data (i, j, S) [])"
proof (induction data arbitrary: i j S out)
  case Nil
  then show ?case by simp
next
  case (Cons b data)
  obtain i1 j1 S1 where st: "prga_step i j S = (i1, j1, S1)"
    by (cases "prga_step i j S") auto
  let ?o = "b XOR of_nat (S1 ! ((S1 ! i1 + S1 ! j1) mod 256))"
  have "snd (prga_loop (b # data) (i, j, S) out) = snd (prga_loop data (i1, j1, S1) (out @ [?o]))"
    by (simp add: st)
  also have "\<dots> = (out @ [?o]) @ snd (prga_loop data (i1, j1, S1) [])"
    by (rule Cons.IH)
  also have "\<dots> = out @ snd (prga_loop data (i1, j1, S1) ([] @ [?o]))"
    using Cons.IH [of i1 j1 S1 "[] @ [?o]"] by simp
  also have "\<dots> = out @ snd (prga_loop (b # data) (i, j, S) [])"
    by (simp add: st)
  finally show ?case .
qed

lemma prga_loop_xor:
  "snd (prga_loop data (i, j, S) []) =
     map2 (XOR) data (snd (prga_loop (replicate (length data) 0) (i, j, S) []))"
proof (induction data arbitrary: i j S)
  case Nil
  then show ?case by simp
next
  case (Cons b data)
  obtain i1 j1 S1 where st: "prga_step i j S = (i1, j1, S1)"
    by (cases "prga_step i j S") auto
  let ?k = "of_nat (S1 ! ((S1 ! i1 + S1 ! j1) mod 256)) :: byte"
  have l: "snd (prga_loop (b # data) (i, j, S) []) = [b XOR ?k] @ snd (prga_loop data (i1, j1, S1) [])"
    using prga_loop_out [of data i1 j1 S1 "[b XOR ?k]"] by (simp add: st)
  have r: "snd (prga_loop (replicate (length (b # data)) 0) (i, j, S) []) =
      [?k] @ snd (prga_loop (replicate (length data) 0) (i1, j1, S1) [])"
    using prga_loop_out [of "replicate (length data) 0" i1 j1 S1 "[?k]"] by (simp add: st)
  show ?case unfolding l r using Cons.IH [of i1 j1 S1] by simp
qed

lemma prga_loop_length:
  "length (snd (prga_loop data (i, j, S) out)) = length out + length data"
proof (induction data arbitrary: i j S out)
  case Nil
  then show ?case by simp
next
  case (Cons b data)
  obtain i1 j1 S1 where st: "prga_step i j S = (i1, j1, S1)"
    by (cases "prga_step i j S") auto
  show ?case by (simp add: st Cons.IH)
qed

lemma prga_loop_append:
  "snd (prga_loop (xs @ ys) (i, j, S) []) =
     snd (prga_loop xs (i, j, S) []) @ snd (prga_loop ys (warmup_loop (length xs) (i, j, S)) [])"
proof (induction xs arbitrary: i j S)
  case Nil
  then show ?case by simp
next
  case (Cons b xs)
  obtain i1 j1 S1 where st: "prga_step i j S = (i1, j1, S1)"
    by (cases "prga_step i j S") auto
  let ?o = "b XOR of_nat (S1 ! ((S1 ! i1 + S1 ! j1) mod 256))"
  have l: "snd (prga_loop ((b # xs) @ ys) (i, j, S) []) = [?o] @ snd (prga_loop (xs @ ys) (i1, j1, S1) [])"
    using prga_loop_out [of "xs @ ys" i1 j1 S1 "[?o]"] by (simp add: st)
  have r: "snd (prga_loop (b # xs) (i, j, S) []) = [?o] @ snd (prga_loop xs (i1, j1, S1) [])"
    using prga_loop_out [of xs i1 j1 S1 "[?o]"] by (simp add: st)
  have w: "warmup_loop (length (b # xs)) (i, j, S) = warmup_loop (length xs) (i1, j1, S1)"
    by (simp add: st)
  show ?case unfolding l r w by (simp add: Cons.IH)
qed

lemma warmup_loop_add:
  "warmup_loop (m + n) (i, j, S) = warmup_loop n (warmup_loop m (i, j, S))"
proof (induction m arbitrary: i j S)
  case 0
  then show ?case by simp
next
  case (Suc m)
  obtain i1 j1 S1 where st: "prga_step i j S = (i1, j1, S1)"
    by (cases "prga_step i j S") auto
  show ?case by (simp add: st Suc.IH)
qed

lemma ksa_ok:
  assumes "key \<noteq> []"
  shows "\<exists>j S. ksa_loop [0..<256] key 0 [0..<256] = Inr (j, S) \<and> mset S = mset [0..<256]"
  using assms by (intro ksa_loop_perm) simp_all

lemma ksa_empty_key: "ksa_loop [0..<256] [] j S = Inl ZeroDivisionError"
proof -
  have r: "[0..<256] = 0 # [Suc 0..<256]"
    by (rule upt_conv_Cons) simp
  have "ksa_loop (0 # [Suc 0..<256]) [] j S = Inl ZeroDivisionError"
    by (simp only: ksa_loop.simps list.size simp_thms if_True)
  then show ?thesis by (simp only: r)
qed

lemma map2_xor_inj:
  "length a = length C \<Longrightarrow> length b = length C \<Longrightarrow>
   (map2 (XOR) C a = map2 (XOR) C b) = (a = (b :: byte list))"
proof
  assume la: "length a = length C" and lb: "length b = length C"
    and eq: "map2 (XOR) C a = map2 (XOR) C b"
  have sw: "\<And>x. length x = length C \<Longrightarrow> map2 (XOR) (map2 (XOR) C x) C = x"
  proof -
    fix x :: "byte list"
    assume "length x = length C"
    then show "map2 (XOR) (map2 (XOR) C x) C = x"
    proof (induction C arbitrary: x)
      case Nil
      then show ?case by simp
    next
      case (Cons c C)
      then obtain y ys where x: "x = y # ys" and l: "length ys = length C"
        by (cases x) auto
      have "(c XOR y) XOR c = y"
        by (simp add: xor.commute xor.left_commute)
      with Cons.IH [OF l] show ?case by (simp add: x)
    qed
  qed
  have "a = map2 (XOR) (map2 (XOR) C a) C"
    by (rule sw [OF la, symmetric])
  also have "\<dots> = map2 (XOR) (map2 (XOR) C b) C"
    by (simp only: eq)
  also have "\<dots> = b"
    by (rule sw [OF lb])
  finally show "a = b" .
next
  assume "a = b"
  then show "map2 (XOR) C a = map2 (XOR) C b" by simp
qed

lemma rc4_decrypt_eq:
  assumes ksa: "ksa_loop [0..<256] key 0 [0..<256] = Inr (j, S)"
  shows "rc4_decrypt data key =
      Inr (map2 (XOR) data (snd (prga_loop (replicate (length data) 0) (0, 0, S) [])))"
  using prga_loop_xor [of data 0 0 S] by (simp add: rc4_decrypt_def ksa)

lemma rc4mi_decrypt_eq:
  assumes ksa: "ksa_loop [0..<256] key 0 [0..<256] = Inr (j, S)"
  shows "rc4mi_decrypt data key =
      Inr (map2 (XOR) data
        (snd (prga_loop (replicate (length data) 0) (warmup_loop 1024 (0, 0, S)) [])))"
proof -
  obtain i1 j1 S1 where w: "warmup_loop 1024 (0, 0, S) = (i1, j1, S1)"
    by (cases "warmup_loop 1024 (0, 0, S)") auto
  show ?thesis
    using prga_loop_xor [of data i1 j1 S1] by (simp add: rc4mi_decrypt_def ksa w)
qed

lemma keystream_split:
  "snd (prga_loop (replicate (m + n) 0) (i, j, S) []) =
     snd (prga_loop (replicate m 0) (i, j, S) []) @
     snd (prga_loop (replicate n 0) (warmup_loop m (i, j, S)) [])"
  using prga_loop_append [of "replicate m 0" "replicate n 0" i j S]
  by (simp add: replicate_add)

lemma keystream_drop:
  "drop m (snd (prga_loop (replicate (m + n) 0) (i, j, S) [])) =
     snd (prga_loop (replicate n 0) (warmup_loop m (i, j, S)) [])"
  by (simp add: keystream_split prga_loop_length)

lemma keystream_take:
  "take n (snd (prga_loop (replicate (m + n) 0) (i, j, S) [])) =
     snd (prga_loop (replicate n 0) (i, j, S) [])"
proof -
  have "snd (prga_loop (replicate (n + m) 0) (i, j, S) []) =
     snd (prga_loop (replicate n 0) (i, j, S) []) @
     snd (prga_loop (replicate m 0) (warmup_loop n (i, j, S)) [])"
    by (rule keystream_split)
  then show ?thesis
    by (simp add: add.commute prga_loop_length)
qed

section \<open>Evaluating RC4 on the one-byte key 0x13\<close>

text \<open>
  The state array for the key \<open>b'\x13'\<close> after the key schedule, and after 256, 512, 768
  and 1024 rounds of the warm-up loop.  The lemmas below establish each of them by
  rewriting with the defining equations of the loops.
\<close>

definition ks19_S0 :: "nat list" where
  "ks19_S0 =
     [2, 39, 60, 163, 56, 129, 250, 246, 35, 235, 91, 38, 46, 101, 134, 59, 203, 239, 170,
     78, 251, 116, 157, 199, 73, 45, 135, 240, 15, 216, 105, 41, 150, 144, 67, 252, 63, 3,
     225, 124, 227, 54, 92, 6, 217, 30, 90, 58, 223, 62, 158, 253, 245, 61, 109, 185, 25, 80,
     219, 81, 110, 182, 222, 208, 49, 37, 204, 210, 27, 120, 241, 132, 126, 103, 18, 166,
     127, 113, 202, 173, 114, 232, 83, 236, 55, 190, 231, 175, 139, 148, 69, 122, 230, 28,
     12, 5, 118, 234, 74, 229, 111, 138, 96, 17, 142, 193, 146, 160, 9, 128, 31, 21, 34, 201,
     165, 26, 136, 243, 8, 11, 152, 47, 52, 94, 93, 68, 143, 218, 14, 48, 75, 176, 189, 206,
     167, 130, 181, 214, 65, 155, 247, 151, 220, 172, 198, 197, 153, 178, 16, 200, 4, 192,
     184, 0, 221, 95, 226, 156, 112, 10, 29, 196, 212, 88, 125, 32, 140, 187, 159, 22, 20,
     36, 147, 149, 186, 244, 237, 248, 195, 77, 107, 19, 164, 87, 40, 255, 7, 131, 238, 115,
     169, 121, 100, 97, 50, 249, 1, 205, 85, 72, 51, 24, 123, 23, 76, 86, 98, 254, 44, 228,
     213, 141, 99, 215, 108, 70, 209, 89, 82, 33, 168, 162, 106, 133, 104, 84, 42, 161, 188,
     191, 183, 13, 137, 43, 180, 194, 119, 211, 171, 242, 179, 224, 117, 233, 145, 102, 57,
     66, 177, 53, 154, 71, 64, 174, 207, 79]"

definition ks19_S256 :: "nat list" where
  "ks19_S256 =
     [204, 124, 46, 227, 222, 223, 73, 113, 194, 110, 97, 199, 116, 179, 2, 114, 30, 102, 33,
     34, 137, 197, 27, 13, 182, 48, 94, 11, 139, 37, 126, 0, 39, 192, 230, 140, 18, 55, 58,
     188, 250, 80, 200, 12, 136, 14, 119, 53, 121, 31, 29, 106, 71, 74, 236, 68, 173, 143,
     118, 6, 26, 93, 66, 72, 240, 65, 254, 60, 213, 86, 180, 43, 226, 127, 83, 123, 10, 7,
     189, 156, 67, 56, 157, 185, 218, 209, 16, 151, 206, 120, 242, 247, 165, 167, 221, 195,
     101, 25, 90, 175, 153, 87, 207, 144, 171, 229, 214, 161, 129, 115, 168, 112, 211, 45,
     82, 148, 64, 19, 61, 125, 17, 42, 128, 104, 166, 159, 246, 75, 24, 219, 203, 152, 4,
     176, 220, 216, 146, 231, 131, 208, 100, 15, 187, 201, 234, 117, 44, 23, 177, 225, 255,
     35, 249, 1, 95, 158, 248, 111, 228, 178, 233, 138, 235, 154, 244, 191, 108, 253, 20, 50,
     134, 54, 99, 193, 89, 237, 181, 36, 239, 232, 49, 135, 142, 224, 32, 70, 163, 85, 190,
     91, 51, 3, 8, 78, 252, 145, 184, 59, 251, 169, 107, 5, 47, 38, 130, 28, 215, 92, 79,
     196, 186, 162, 98, 133, 202, 198, 149, 238, 76, 69, 210, 132, 41, 21, 174, 212, 9, 141,
     62, 183, 77, 22, 105, 122, 155, 57, 241, 88, 147, 103, 52, 81, 217, 84, 172, 170, 243,
     164, 150, 245, 96, 160, 63, 40, 205, 109]"

definition ks19_S512 :: "nat list" where
  "ks19_S512 =
     [143, 3, 50, 155, 60, 102, 173, 171, 117, 106, 177, 118, 45, 185, 179, 243, 137, 6, 72,
     91, 69, 189, 85, 175, 246, 111, 92, 152, 235, 169, 242, 126, 129, 196, 158, 28, 181,
     180, 216, 166, 198, 74, 29, 26, 78, 5, 134, 207, 147, 203, 61, 249, 255, 212, 233, 254,
     44, 99, 247, 234, 57, 146, 47, 40, 231, 66, 140, 214, 238, 14, 15, 18, 191, 131, 130,
     144, 56, 90, 148, 36, 93, 73, 33, 221, 31, 41, 121, 149, 227, 98, 161, 124, 195, 68, 82,
     53, 163, 105, 206, 63, 222, 241, 192, 184, 139, 52, 208, 252, 219, 67, 248, 94, 138, 7,
     51, 217, 103, 170, 253, 237, 8, 210, 127, 39, 182, 245, 80, 37, 211, 119, 4, 48, 20, 55,
     65, 25, 101, 183, 226, 70, 112, 22, 174, 46, 23, 59, 205, 87, 156, 154, 21, 176, 194,
     115, 42, 77, 123, 142, 13, 58, 157, 71, 12, 132, 11, 95, 187, 186, 232, 24, 215, 204,
     75, 172, 43, 145, 97, 141, 17, 201, 0, 76, 116, 83, 2, 34, 81, 19, 88, 38, 10, 104, 209,
     27, 250, 224, 32, 167, 202, 110, 1, 213, 107, 54, 153, 162, 165, 89, 133, 223, 62, 164,
     79, 225, 120, 86, 35, 193, 190, 188, 178, 96, 218, 109, 220, 200, 150, 168, 229, 244,
     236, 230, 16, 114, 113, 160, 128, 9, 84, 125, 30, 135, 197, 136, 159, 240, 100, 228, 49,
     251, 64, 122, 199, 151, 239, 108]"

definition ks19_S768 :: "nat list" where
  "ks19_S768 =
     [183, 136, 146, 39, 66, 177, 195, 216, 113, 15, 211, 19, 192, 105, 134, 76, 23, 21, 111,
     251, 255, 249, 239, 54, 81, 218, 102, 107, 157, 70, 160, 104, 191, 232, 194, 202, 35,
     207, 41, 175, 217, 242, 190, 159, 75, 185, 162, 77, 106, 47, 135, 252, 78, 91, 223, 93,
     59, 121, 63, 144, 138, 220, 188, 98, 164, 4, 133, 124, 57, 13, 141, 56, 20, 154, 68, 7,
     210, 208, 85, 6, 96, 67, 82, 28, 128, 32, 0, 248, 151, 206, 126, 187, 152, 204, 95, 233,
     65, 18, 137, 203, 132, 31, 213, 189, 201, 231, 205, 24, 69, 1, 166, 155, 225, 14, 11, 5,
     243, 83, 43, 84, 100, 197, 161, 199, 17, 214, 117, 58, 169, 250, 230, 60, 234, 2, 209,
     193, 153, 240, 86, 120, 22, 227, 130, 79, 44, 142, 129, 27, 45, 50, 215, 108, 72, 48,
     123, 174, 236, 122, 12, 182, 61, 90, 89, 180, 80, 53, 245, 34, 158, 246, 145, 200, 140,
     74, 149, 73, 244, 254, 55, 165, 235, 170, 127, 10, 247, 173, 49, 94, 229, 109, 147, 110,
     103, 36, 97, 16, 40, 181, 46, 228, 198, 178, 221, 125, 92, 219, 196, 33, 176, 179, 112,
     52, 25, 156, 212, 168, 9, 226, 171, 167, 30, 37, 87, 88, 38, 237, 119, 8, 71, 51, 148,
     184, 64, 241, 29, 131, 42, 26, 150, 172, 139, 224, 238, 253, 118, 101, 186, 116, 222,
     99, 3, 163, 143, 114, 62, 115]"

definition ks19_S1024 :: "nat list" where
  "ks19_S1024 =
     [170, 197, 251, 137, 164, 70, 43, 207, 107, 93, 127, 179, 176, 121, 125, 225, 49, 72,
     205, 80, 10, 133, 51, 48, 239, 208, 65, 194, 20, 234, 32, 132, 217, 199, 0, 181, 252,
     111, 106, 88, 135, 253, 24, 151, 122, 152, 143, 154, 11, 90, 247, 63, 1, 219, 140, 79,
     94, 50, 25, 54, 230, 245, 209, 254, 37, 102, 14, 142, 220, 231, 178, 42, 53, 129, 172,
     224, 39, 240, 96, 138, 98, 228, 8, 115, 58, 182, 250, 206, 192, 73, 212, 61, 169, 243,
     201, 34, 214, 30, 31, 26, 161, 157, 215, 105, 248, 168, 193, 103, 155, 74, 40, 59, 41,
     191, 4, 189, 153, 167, 55, 108, 56, 19, 77, 13, 223, 100, 69, 213, 233, 18, 150, 255,
     131, 78, 156, 145, 149, 27, 109, 183, 134, 89, 17, 36, 136, 163, 159, 68, 67, 190, 9,
     87, 33, 104, 60, 22, 82, 242, 126, 162, 216, 113, 81, 210, 101, 16, 38, 226, 211, 188,
     146, 97, 158, 46, 123, 83, 44, 64, 7, 91, 237, 232, 114, 203, 12, 15, 171, 180, 130, 47,
     244, 21, 173, 5, 66, 144, 6, 3, 227, 124, 75, 86, 165, 160, 222, 186, 166, 184, 92, 23,
     196, 238, 28, 246, 84, 45, 128, 175, 141, 139, 120, 174, 195, 119, 221, 198, 29, 71,
     147, 241, 200, 95, 76, 118, 117, 229, 236, 202, 249, 185, 52, 112, 35, 116, 177, 99, 57,
     187, 204, 148, 62, 235, 110, 85, 2, 218]"

text \<open>Rewrite rules that evaluate list access and arithmetic modulo 256 on numerals.\<close>

lemma warmup_loop_numeral:
  "warmup_loop (numeral v) (i, j, S) = warmup_loop (pred_numeral v) (prga_step i j S)"
  by (simp add: numeral_eq_Suc)

lemma list_update_Cons_numeral:
  "(x # xs)[numeral v := y] = x # xs[pred_numeral v := y]"
  by (simp add: numeral_eq_Suc)

lemma list_update_Cons_one: "(x # xs)[1 := y] = x # xs[0 := y]"
  by simp

lemma list_update_Cons_zero: "(x # xs)[0 := y] = y # xs"
  by simp

lemma nth_Cons_pred_numeral: "(x # xs) ! numeral v = xs ! pred_numeral v"
  by (simp add: numeral_eq_Suc)

lemma nth_Cons_one: "(x # xs) ! 1 = xs ! 0"
  by simp

lemma nth_Cons_zero: "(x # xs) ! 0 = x"
  by simp

lemma mod256_numeral:
  "(numeral k :: nat) mod 256 = (case take_bit_num 8 k of None \<Rightarrow> 0 | Some q \<Rightarrow> numeral q)"
proof -
  have "(numeral k :: nat) mod 256 = take_bit 8 (numeral k)"
    by (simp add: take_bit_eq_mod)
  then show ?thesis
    by (simp only: take_bit_numeral_numeral)
qed

lemma mod256_zero: "(0::nat) mod 256 = 0"
  by simp

lemma mod256_one: "(1::nat) mod 256 = 1"
  by simp

lemma ksa_step_19:
  "ksa_loop (i # is) [19] j S =
     (let j' = (j + S ! i + 19) mod 256 in ksa_loop is [19] j' (S[i := S ! j', j' := S ! i]))"
  by simp

lemma upt_numeral_step:
  "[numeral m..<numeral n] =
     (if (numeral m :: nat) < numeral n then numeral m # [numeral (m + Num.One)..<numeral n]
      else [])"
  by (subst upt_rec) (simp add: add_One del: upt_rec_numeral)

lemma upt_start: "[0..<256] = 0 # 1 # [2..<256]"
proof -
  have "[0..<256] = 0 # [Suc 0..<256]"
    by (rule upt_conv_Cons) simp
  also have "[Suc 0..<256] = Suc 0 # [Suc (Suc 0)..<256]"
    by (rule upt_conv_Cons) simp
  finally show ?thesis
    by (simp only: numeral_2_eq_2 One_nat_def)
qed

lemmas rc4_eval = Let_def warmup_loop_numeral warmup_loop.simps(1) list_update_Cons_numeral
  list_update_Cons_one list_update_Cons_zero nth_Cons_pred_numeral nth_Cons_one nth_Cons_zero
  mod256_numeral mod256_zero mod256_one take_bit_num_simps(1,5,6,7) pred_numeral_simps
  BitM.simps option.case prod.case numeral_plus_numeral add_num_simps add_0 add_0_right
  numeral_plus_one one_plus_numeral one_add_one ksa_step_19 ksa_loop.simps(1) prga_step_def
  prga_loop.simps append_Nil append_Cons snd_conv

text \<open>
  In the key schedule both occurrences of \<open>[0..<256]\<close> are first rewritten to the
  explicit list of the numbers 0..255.
\<close>

lemmas upt_eval = upt_start upt_numeral_step numeral_less_iff less_num_simps if_True if_False

lemma ksa_19: "ksa_loop [0..<256] [19] 0 [0..<256] = Inr (225, ks19_S0)"
  unfolding ks19_S0_def
  by (simp only: rc4_eval upt_eval cong: let_weak_cong option.case_cong_weak if_weak_cong)

lemma warmup_19_256: "warmup_loop 256 (0, 0, ks19_S0) = (0, 255, ks19_S256)"
  unfolding ks19_S0_def ks19_S256_def
  by (simp only: rc4_eval cong: let_weak_cong option.case_cong_weak)

lemma warmup_19_512: "warmup_loop 256 (0, 255, ks19_S256) = (0, 171, ks19_S512)"
  unfolding ks19_S256_def ks19_S512_def
  by (simp only: rc4_eval cong: let_weak_cong option.case_cong_weak)

lemma warmup_19_768: "warmup_loop 256 (0, 171, ks19_S512) = (0, 219, ks19_S768)"
  unfolding ks19_S512_def ks19_S768_def
  by (simp only: rc4_eval cong: let_weak_cong option.case_cong_weak)

lemma warmup_19_1024: "warmup_loop 256 (0, 219, ks19_S768) = (0, 139, ks19_S1024)"
  unfolding ks19_S768_def ks19_S1024_def
  by (simp only: rc4_eval cong: let_weak_cong option.case_cong_weak)

lemma warmup_19: "warmup_loop 1024 (0, 0, ks19_S0) = (0, 139, ks19_S1024)"
proof -
  have "warmup_loop (256 + 256 + 256 + 256) (0, 0, ks19_S0) = (0, 139, ks19_S1024)"
    by (simp only: warmup_loop_add warmup_19_256 warmup_19_512 warmup_19_768 warmup_19_1024)
  moreover have "(256 + 256 + 256 + 256 :: nat) = 1024"
    by simp
  ultimately show ?thesis
    by (simp only:)
qed

lemma prga_19_std:
  "snd (prga_loop [b1, b2] (0, 0, ks19_S0) []) = [b1 XOR 88, b2 XOR 144]"
  unfolding ks19_S0_def
  apply (simp only: rc4_eval cong: let_weak_cong option.case_cong_weak prod.case_cong_weak)
  apply simp
  done

lemma prga_19_mi:
  "snd (prga_loop [b1, b2] (0, 139, ks19_S1024) []) = [b1 XOR 88, b2 XOR 139]"
  unfolding ks19_S1024_def
  apply (simp only: rc4_eval cong: let_weak_cong option.case_cong_weak prod.case_cong_weak)
  apply simp
  done

lemma prga_19_std_1: "snd (prga_loop [b1] (0, 0, ks19_S0) []) = [b1 XOR 88]"
  unfolding ks19_S0_def
  apply (simp only: rc4_eval cong: let_weak_cong option.case_cong_weak prod.case_cong_weak)
  apply simp
  done

lemma prga_19_mi_1: "snd (prga_loop [b1] (0, 139, ks19_S1024) []) = [b1 XOR 88]"
  unfolding ks19_S1024_def
  apply (simp only: rc4_eval cong: let_weak_cong option.case_cong_weak prod.case_cong_weak)
  apply simp
  done

lemma rc4_decrypt_19:
  "rc4_decrypt data [19] = Inr (snd (prga_loop data (0, 0, ks19_S0) []))"
  by (simp only: rc4_decrypt_def ksa_19 sum.case prod.case)

lemma rc4mi_decrypt_19:
  "rc4mi_decrypt data [19] = Inr (snd (prga_loop data (0, 139, ks19_S1024) []))"
  by (simp only: rc4mi_decrypt_def ksa_19 sum.case prod.case warmup_19)

section \<open>Properties of rc4\_decrypt and rc4mi\_decrypt\<close>

text \<open>
  C8.  Standard RC4 round trip: for every ciphertext \<open>C\<close> and every non-empty key \<open>K\<close>,
  \<open>rc4_decrypt\<close> returns a byte string \<open>P\<close> of the length of \<open>C\<close>, and \<open>rc4_decrypt\<close> applied
  to \<open>P\<close> with the same key returns \<open>C\<close>: the keystream depends only on the key and the
  number of bytes.
\<close>

theorem rc4_round_trip:
  assumes "K \<noteq> []"
  shows "\<exists>P. rc4_decrypt C K = Inr P \<and> length P = length C \<and> rc4_decrypt P K = Inr C"
proof -
  from ksa_ok [OF assms] obtain j S where ksa: "ksa_loop [0..<256] K 0 [0..<256] = Inr (j, S)"
    by blast
  let ?ks = "snd (prga_loop (replicate (length C) 0) (0, 0, S) [])"
  let ?P = "map2 (XOR) C ?ks"
  have lks: "length ?ks = length C"
    by (simp add: prga_loop_length)
  have P: "rc4_decrypt C K = Inr ?P"
    by (rule rc4_decrypt_eq [OF ksa])
  have len: "length ?P = length C"
    by (simp add: lks)
  have "rc4_decrypt ?P K =
      Inr (map2 (XOR) ?P (snd (prga_loop (replicate (length ?P) 0) (0, 0, S) [])))"
    by (rule rc4_decrypt_eq [OF ksa])
  also have "\<dots> = Inr (map2 (XOR) ?P ?ks)"
    by (simp only: len)
  also have "\<dots> = Inr C"
    using lks by (simp add: xor_twice)
  finally show ?thesis using P len by blast
qed

theorem rc4_round_trip_witness:
  "rc4_decrypt [0x49, 0x44] [19] = Inr [0x11, 0xD4]
   \<and> rc4_decrypt [0x11, 0xD4] [19] = Inr [0x49, 0x44]"
proof -
  have ne: "[19 :: byte] \<noteq> []" by simp
  have "rc4_decrypt [0x49, 0x44] [19] = Inr [0x49 XOR 88, 0x44 XOR 144]"
    by (simp only: rc4_decrypt_19 prga_19_std)
  then have P: "rc4_decrypt [0x49, 0x44] [19] = Inr [0x11, 0xD4]"
    by simp
  from rc4_round_trip [OF ne, of "[0x49, 0x44]"] P
  show ?thesis by simp
qed

text \<open>
  C10.  RC4 state invariant: for every non-empty key the key schedule succeeds and leaves
  the state array \<open>S\<close> a permutation of 0..255 (as a multiset it equals the numbers
  0..255); the array is still such a permutation after any number of warm-up rounds, and
  in both variants after the keystream loop has processed any input, that is, after
  every swap step of these loops.
\<close>

theorem rc4_state_permutation:
  assumes "K \<noteq> []"
  shows "\<exists>j S. ksa_loop [0..<256] K 0 [0..<256] = Inr (j, S)
           \<and> mset S = mset [0..<256]
           \<and> (\<forall>n. mset (snd (snd (warmup_loop n (0, 0, S)))) = mset [0..<256])
           \<and> (\<forall>data. mset (snd (snd (fst (prga_loop data (0, 0, S) [])))) = mset [0..<256])
           \<and> (\<forall>data. mset (snd (snd (fst (prga_loop data (warmup_loop 1024 (0, 0, S)) []))))
                 = mset [0..<256])"
proof -
  from ksa_ok [OF assms] obtain j S where ksa: "ksa_loop [0..<256] K 0 [0..<256] = Inr (j, S)"
    and perm: "mset S = mset [0..<256]"
    by blast
  have w: "mset (snd (snd (warmup_loop n (0, 0, S)))) = mset [0..<256]" for n
  proof -
    obtain i1 j1 S1 where st: "warmup_loop n (0, 0, S) = (i1, j1, S1)"
      by (cases "warmup_loop n (0, 0, S)") auto
    from warmup_loop_perm [OF perm st] show ?thesis by (simp add: st)
  qed
  have p: "mset (snd (snd (fst (prga_loop data (0, 0, S) [])))) = mset [0..<256]" for data
    by (simp only: prga_loop_state w)
  have q: "mset (snd (snd (fst (prga_loop data (warmup_loop 1024 (0, 0, S)) []))))
      = mset [0..<256]" for data
  proof -
    obtain i1 j1 S1 where st: "warmup_loop 1024 (0, 0, S) = (i1, j1, S1)"
      by (cases "warmup_loop 1024 (0, 0, S)") auto
    have "fst (prga_loop data (i1, j1, S1) []) = warmup_loop (1024 + length data) (0, 0, S)"
      by (simp only: prga_loop_state warmup_loop_add st)
    then show ?thesis by (simp only: st w)
  qed
  from ksa perm w p q show ?thesis by blast
qed

theorem rc4_state_permutation_witness:
  "ksa_loop [0..<256] [19] 0 [0..<256] = Inr (225, ks19_S0)
   \<and> mset ks19_S0 = mset [0..<256]
   \<and> mset ks19_S1024 = mset [0..<256]"
proof -
  have ne: "[19 :: byte] \<noteq> []" by simp
  from rc4_state_permutation [OF ne] obtain j S where
    ksa: "ksa_loop [0..<256] [19] 0 [0..<256] = Inr (j, S)" and
    perm: "mset S = mset [0..<256]" and
    warm: "\<forall>n. mset (snd (snd (warmup_loop n (0, 0, S)))) = mset [0..<256]"
    by blast
  from ksa have S: "S = ks19_S0"
    by (simp only: ksa_19 sum.inject prod.inject)
  from warm have "mset (snd (snd (warmup_loop 1024 (0, 0, S)))) = mset [0..<256]"
    by (rule spec)
  then have "mset ks19_S1024 = mset [0..<256]"
    by (simp only: S warmup_19 snd_conv)
  with perm S ksa_19 show ?thesis by (simp only: simp_thms)
qed

text \<open>
  C3 (as amended).  The vendor variant runs the standard key schedule, then exactly 1024
  rounds of the swap-and-index update without output, then the standard keystream loop.
  Consequently, for every non-empty key \<open>K\<close> and every ciphertext \<open>C\<close>, with \<open>ks\<close> the first
  \<open>1024 + |C|\<close> keystream bytes of standard RC4 under \<open>K\<close>: the standard output is \<open>C\<close>
  XOR the first \<open>|C|\<close> bytes of \<open>ks\<close>, the vendor output is \<open>C\<close> XOR the bytes of \<open>ks\<close> from
  offset 1024 on, and the two outputs differ exactly when these two segments of the
  keystream differ.
\<close>

theorem rc4mi_keystream_offset:
  assumes "K \<noteq> []"
  shows "\<exists>ks. keystream (1024 + length C) K = Inr ks
           \<and> length ks = 1024 + length C
           \<and> rc4_decrypt C K = Inr (map2 (XOR) C (take (length C) ks))
           \<and> rc4mi_decrypt C K = Inr (map2 (XOR) C (drop 1024 ks))
           \<and> (rc4mi_decrypt C K \<noteq> rc4_decrypt C K \<longleftrightarrow> drop 1024 ks \<noteq> take (length C) ks)"
proof -
  from ksa_ok [OF assms] obtain j S where ksa: "ksa_loop [0..<256] K 0 [0..<256] = Inr (j, S)"
    by blast
  let ?n = "length C"
  let ?ks = "snd (prga_loop (replicate (1024 + ?n) 0) (0, 0, S) [])"
  let ?a = "snd (prga_loop (replicate ?n 0) (0, 0, S) [])"
  let ?b = "snd (prga_loop (replicate ?n 0) (warmup_loop 1024 (0, 0, S)) [])"
  have la: "length ?a = ?n"
    by (simp only: prga_loop_length length_replicate list.size add_0)
  have tk: "take ?n ?ks = ?a"
    by (rule keystream_take)
  have dr: "drop 1024 ?ks = ?b"
    by (rule keystream_drop)
  have lb: "length ?b = ?n"
  proof -
    have "length (drop 1024 ?ks) = ?n"
      by (simp only: length_drop prga_loop_length length_replicate list.size add_0
          add_diff_cancel_left')
    then show ?thesis by (simp only: dr)
  qed
  have lks: "length ?ks = 1024 + ?n"
    by (simp only: prga_loop_length length_replicate list.size add_0)
  have ks: "keystream (1024 + ?n) K = Inr ?ks"
    by (simp only: keystream_def rc4_decrypt_def ksa sum.case prod.case)
  have std: "rc4_decrypt C K = Inr (map2 (XOR) C (take ?n ?ks))"
    unfolding tk by (rule rc4_decrypt_eq [OF ksa])
  have mi: "rc4mi_decrypt C K = Inr (map2 (XOR) C (drop 1024 ?ks))"
    unfolding dr by (rule rc4mi_decrypt_eq [OF ksa])
  have "(map2 (XOR) C ?b = map2 (XOR) C ?a) = (?b = ?a)"
    using lb la by (rule map2_xor_inj)
  then have "(rc4mi_decrypt C K \<noteq> rc4_decrypt C K) = (drop 1024 ?ks \<noteq> take ?n ?ks)"
    unfolding std mi tk dr by (simp only: sum.inject)
  with ks lks std mi show ?thesis by blast
qed

theorem rc4mi_keystream_offset_witness:
  "\<exists>ks. keystream 1026 [19] = Inr ks
      \<and> take 2 ks = [88, 144] \<and> drop 1024 ks = [88, 139]
      \<and> rc4_decrypt [0, 0] [19] = Inr [88, 144]
      \<and> rc4mi_decrypt [0, 0] [19] = Inr [88, 139]
      \<and> rc4mi_decrypt [0, 0] [19] \<noteq> rc4_decrypt [0, 0] [19]"
proof -
  have ne: "[19 :: byte] \<noteq> []" by simp
  have "rc4_decrypt [0, 0] [19] = Inr [0 XOR 88, 0 XOR 144]"
    by (simp only: rc4_decrypt_19 prga_19_std)
  then have std: "rc4_decrypt [0, 0] [19] = Inr [88, 144]"
    by simp
  have "rc4mi_decrypt [0, 0] [19] = Inr [0 XOR 88, 0 XOR 139]"
    by (simp only: rc4mi_decrypt_19 prga_19_mi)
  then have mi: "rc4mi_decrypt [0, 0] [19] = Inr [88, 139]"
    by simp
  from rc4mi_keystream_offset [OF ne, of "[0, 0]"] obtain ks where
    ks: "keystream (1024 + length [0, 0 :: byte]) [19] = Inr ks" and
    len: "length ks = 1024 + length [0, 0 :: byte]" and
    a: "rc4_decrypt [0, 0] [19] = Inr (map2 (XOR) [0, 0] (take (length [0, 0 :: byte]) ks))" and
    b: "rc4mi_decrypt [0, 0] [19] = Inr (map2 (XOR) [0, 0] (drop 1024 ks))"
    by blast
  have l2: "length [0, 0 :: byte] = 2" by simp
  have n: "(1024 + 2 :: nat) = 1026" by simp
  from len have lt: "length (take 2 ks) = 2" and ld: "length (drop 1024 ks) = 2"
    by (simp_all add: l2)
  have z: "map2 (XOR) [0, 0] xs = xs" if "length xs = 2" for xs :: "byte list"
  proof -
    from that obtain x y where "xs = [x, y]"
      by (cases xs; cases "tl xs") auto
    then show ?thesis by simp
  qed
  from a std have "take 2 ks = [88, 144]"
    by (simp only: l2 z [OF lt] sum.inject)
  moreover from b mi have "drop 1024 ks = [88, 139]"
    by (simp only: z [OF ld] sum.inject)
  moreover from ks have "keystream 1026 [19] = Inr ks"
    by (simp only: l2 n)
  moreover have "rc4mi_decrypt [0, 0] [19] \<noteq> rc4_decrypt [0, 0] [19]"
    by (simp add: std mi)
  ultimately show ?thesis using std mi by blast
qed

text \<open>
  The claim that the vendor output differs from the standard output for every non-empty
  key and every ciphertext of positive length fails: for the one-byte key \<open>b'\x13'\<close> the
  first keystream byte after the warm-up equals the first keystream byte without it, so
  both functions map the one-byte ciphertext \<open>b'\x00'\<close> to \<open>b'\x58'\<close>.
\<close>

theorem rc4mi_equals_rc4_counterexample:
  "rc4mi_decrypt [0x00] [0x13] = Inr [0x58] \<and> rc4_decrypt [0x00] [0x13] = Inr [0x58]"
proof -
  have "rc4mi_decrypt [0x00] [0x13] = Inr [0x00 XOR 88]"
    by (simp only: rc4mi_decrypt_19 prga_19_mi_1)
  moreover have "rc4_decrypt [0x00] [0x13] = Inr [0x00 XOR 88]"
    by (simp only: rc4_decrypt_19 prga_19_std_1)
  ultimately show ?thesis by simp
qed

section \<open>The report of one trial\<close>



lemma trial_failed:
  "f data key = Inl e \<Longrightarrow>
   log (trial w name f data key empty_state) = [Header name, DecryptFailed e]"
  by (simp add: trial_def try_block_def emit_def empty_state_def)

lemma trial_succeeded:
  "f data key = Inr p \<Longrightarrow> \<not> is_valid_mp3 p \<Longrightarrow>
   log (trial w name f data key empty_state) =
     [Header name, DecryptedHex (take 32 p), DecryptedAscii (take 32 p), NotValidMp3]"
  by (simp add: trial_def try_block_def emit_def empty_state_def Let_def)







section \<open>Properties of the AES trials\<close>

lemma error_bytes_not_mp3: "\<not> is_valid_mp3 (error_bytes e)"
  by (simp add: is_valid_mp3_def error_bytes_def encode_def)

lemma padded_div:
  assumes "\<not> 16 dvd (n::nat)"
  shows "(n + 15) div 16 = n div 16 + 1"
proof -
  define q r where "q = n div 16" and "r = n mod 16"
  have n: "n = q * 16 + r"
    by (simp add: q_def r_def)
  have r: "0 < r" "r < 16"
    using assms by (simp_all add: r_def dvd_eq_mod_eq_0)
  have "(r + 15) div 16 = 1"
    using r by (intro div_nat_eqI) simp_all
  moreover have "(q * 16 + r + 15) div 16 = q + (r + 15) div 16"
    by (simp only: add.assoc div_mult_self3)
  ultimately have "(n + 15) div 16 = q + 1"
    unfolding n by (simp only:)
  then show ?thesis by (simp only: q_def)
qed

lemma padded_len_eq:
  assumes "\<not> 16 dvd (n::nat)"
  shows "(n + 15) div 16 * 16 = n + (16 - n mod 16)"
proof -
  have "n = n div 16 * 16 + n mod 16"
    by (simp only: div_mult_mod_eq)
  moreover have "n mod 16 < 16"
    by simp
  ultimately have "(n div 16 + 1) * 16 = n + (16 - n mod 16)"
    by (simp only: distrib_right)
  then show ?thesis
    by (simp only: padded_div [OF assms])
qed

lemma padded_len_ge: "(n::nat) \<le> (n + 15) div 16 * 16"
proof -
  have "n + 15 = (n + 15) div 16 * 16 + (n + 15) mod 16"
    by (simp only: div_mult_mod_eq)
  moreover have "(n + 15) mod 16 < 16"
    by simp
  ultimately show ?thesis by linarith
qed

lemma length_padded_data: "length (padded_data data) = (length data + 15) div 16 * 16"
  using padded_len_ge [of "length data"] by (simp add: padded_data_def Let_def)

lemma padded_data_dvd: "16 dvd length (padded_data data)"
  by (simp only: length_padded_data dvd_triv_right)

lemma padded_data_eq:
  assumes "\<not> 16 dvd length data"
  shows "padded_data data = data @ replicate (16 - length data mod 16) 0"
proof -
  have "(length data + 15) div 16 * 16 - length data = 16 - length data mod 16"
    by (simp only: padded_len_eq [OF assms] add_diff_cancel_left')
  then show ?thesis by (simp only: padded_data_def Let_def)
qed

lemma padded_data_longer:
  assumes "\<not> 16 dvd length data"
  shows "length data < length (padded_data data)"
proof -
  have "length data mod 16 < 16" by simp
  moreover have "length (padded_data data) = length data + (16 - length data mod 16)"
    by (simp only: length_padded_data padded_len_eq [OF assms])
  ultimately show ?thesis by linarith
qed

lemma length_checking_aes_contract: "aes128_contract length_checking_aes"
  by (simp add: aes128_contract_def length_checking_aes_def split: aes_mode.split)

lemma aes_ecb_rejected:
  "aes_new L key MODE_ECB = Inl msg \<Longrightarrow> aes_ecb_decrypt L data key = error_bytes msg"
  by (simp add: aes_ecb_decrypt_def)

lemma aes_cbc_rejected:
  "aes_new L key (MODE_CBC (replicate 16 0)) = Inl msg \<Longrightarrow>
   aes_cbc_decrypt L data key None = error_bytes msg"
  by (simp add: aes_cbc_decrypt_def)

lemma aes_ctr_rejected:
  "aes_new L key (MODE_CTR (replicate 8 0)) = Inl msg \<Longrightarrow>
   aes_ctr_decrypt L data key None = error_bytes msg"
  by (simp add: aes_ctr_decrypt_def)

lemma decimal_digit: "n < 10 \<Longrightarrow> decimal n = [''0123456789'' ! n]"
  by (simp add: decimal.simps)

lemma length_checking_aes_rejects:
  "length key \<notin> {16, 24, 32} \<Longrightarrow>
   aes_new length_checking_aes key mode =
     Inl (''Incorrect AES key length ('' @ decimal (length key) @ '' bytes)'')"
  by (simp add: length_checking_aes_def)

text \<open>
  C5.  For every 16-byte key and every ciphertext whose length is not a multiple of 16,
  with a library that accepts 16-byte keys and decrypts block-aligned input to output of
  the same length: \<open>aes_ecb_decrypt\<close> and \<open>aes_cbc_decrypt\<close> (default all-zero
  initialisation vector) hand the library the ciphertext followed by zero bytes up to
  the next multiple of 16, and return the first \<open>len(data)\<close> bytes of what the library
  returns; the result has exactly the length of the ciphertext, which is less than the
  padded length.
\<close>

theorem aes_zero_pad_truncate:
  assumes L: "aes128_contract L" and key: "length key = 16" and nd: "\<not> 16 dvd length data"
  shows "padded_data data = data @ replicate (16 - length data mod 16) 0
     \<and> length (padded_data data) = (length data div 16 + 1) * 16
     \<and> (\<exists>c p. aes_new L key MODE_ECB = Inr c \<and> aes_decrypt L c (padded_data data) = Inr p
            \<and> length p = length (padded_data data)
            \<and> aes_ecb_decrypt L data key = take (length data) p)
     \<and> (\<exists>c p. aes_new L key (MODE_CBC (replicate 16 0)) = Inr c
            \<and> aes_decrypt L c (padded_data data) = Inr p
            \<and> length p = length (padded_data data)
            \<and> aes_cbc_decrypt L data key None = take (length data) p)
     \<and> length (aes_ecb_decrypt L data key) = length data
     \<and> length (aes_cbc_decrypt L data key None) = length data
     \<and> length data < length (padded_data data)"
proof -
  have pad: "padded_data data = data @ replicate (16 - length data mod 16) 0"
    using nd by (rule padded_data_eq)
  have len: "length (padded_data data) = (length data div 16 + 1) * 16"
    by (simp only: length_padded_data padded_div [OF nd])
  have longer: "length data < length (padded_data data)"
    using nd by (rule padded_data_longer)
  from L key obtain c where c: "aes_new L key MODE_ECB = Inr c"
    unfolding aes128_contract_def by blast
  from L obtain p where p: "aes_decrypt L c (padded_data data) = Inr p"
    and lp: "length p = length (padded_data data)"
    unfolding aes128_contract_def using padded_data_dvd [of data] by blast
  have ecb: "aes_ecb_decrypt L data key = take (length data) p"
    by (simp add: aes_ecb_decrypt_def c p)
  from L key obtain c' where c': "aes_new L key (MODE_CBC (replicate 16 0)) = Inr c'"
    unfolding aes128_contract_def by (metis length_replicate)
  from L obtain p' where p': "aes_decrypt L c' (padded_data data) = Inr p'"
    and lp': "length p' = length (padded_data data)"
    unfolding aes128_contract_def using padded_data_dvd [of data] by blast
  have cbc: "aes_cbc_decrypt L data key None = take (length data) p'"
    by (simp add: aes_cbc_decrypt_def c' p')
  have l1: "length (aes_ecb_decrypt L data key) = length data"
    using lp longer by (simp add: ecb)
  have l2: "length (aes_cbc_decrypt L data key None) = length data"
    using lp' longer by (simp add: cbc)
  from pad len c p lp ecb c' p' lp' cbc l1 l2 longer show ?thesis by blast
qed

theorem aes_zero_pad_truncate_witness:
  "padded_data [1, 2, 3, 4, 5] = [1, 2, 3, 4, 5, 0, 0, 0, 0, 0, 0, 0, 0, 0, 0, 0]
   \<and> length (aes_ecb_decrypt length_checking_aes [1, 2, 3, 4, 5] (replicate 16 7)) = 5
   \<and> length (aes_cbc_decrypt length_checking_aes [1, 2, 3, 4, 5] (replicate 16 7) None) = 5"
proof -
  have k: "length (replicate 16 (7::byte)) = 16" by simp
  have l5: "length [1, 2, 3, 4, 5 :: byte] = 5" by simp
  have nd: "\<not> 16 dvd length [1, 2, 3, 4, 5 :: byte]"
    unfolding l5 by simp
  have "replicate 11 (0::byte) = [0, 0, 0, 0, 0, 0, 0, 0, 0, 0, 0]"
    by (simp add: eval_nat_numeral)
  then have r: "replicate (16 - length [1, 2, 3, 4, 5 :: byte] mod 16) (0::byte)
      = [0, 0, 0, 0, 0, 0, 0, 0, 0, 0, 0]"
    unfolding l5 by simp
  from aes_zero_pad_truncate [OF length_checking_aes_contract k nd] r
  show ?thesis by simp
qed

text \<open>
  C6 (as amended).  When the library rejects the key (\<open>AES.new\<close> raises with text \<open>msg\<close>),
  the AES functions do not raise and do not return a structured error: they return the
  bytes of the text \<open>Error: msg\<close> as their ordinary result.  The trial loop handles that
  result like any candidate plaintext: it prints the two previews of its first 32 bytes
  and, since the text does not start with ID3 or 0xFF, the verdict that it is not a valid
  MP3 file; nothing marks the trial as failed.
\<close>

theorem aes_rejected_key_error_text:
  "(aes_new L key MODE_ECB = Inl msg \<longrightarrow>
      aes_ecb_decrypt L data key = error_bytes msg
      \<and> log (trial w n (\<lambda>d k. Inr (aes_ecb_decrypt L d k)) data key empty_state) =
          [Header n, DecryptedHex (take 32 (error_bytes msg)),
           DecryptedAscii (take 32 (error_bytes msg)), NotValidMp3])
   \<and> (aes_new L key (MODE_CBC (replicate 16 0)) = Inl msg \<longrightarrow>
      aes_cbc_decrypt L data key None = error_bytes msg
      \<and> log (trial w n (\<lambda>d k. Inr (aes_cbc_decrypt L d k None)) data key empty_state) =
          [Header n, DecryptedHex (take 32 (error_bytes msg)),
           DecryptedAscii (take 32 (error_bytes msg)), NotValidMp3])
   \<and> (aes_new L key (MODE_CTR (replicate 8 0)) = Inl msg \<longrightarrow>
      aes_ctr_decrypt L data key None = error_bytes msg
      \<and> log (trial w n (\<lambda>d k. Inr (aes_ctr_decrypt L d k None)) data key empty_state) =
          [Header n, DecryptedHex (take 32 (error_bytes msg)),
           DecryptedAscii (take 32 (error_bytes msg)), NotValidMp3])
   \<and> \<not> is_valid_mp3 (error_bytes msg)"
proof -
  have t: "log (trial w n (\<lambda>d k. Inr (f d k)) data key empty_state) =
          [Header n, DecryptedHex (take 32 (error_bytes msg)),
           DecryptedAscii (take 32 (error_bytes msg)), NotValidMp3]"
    if "f data key = error_bytes msg" for f :: "byte list \<Rightarrow> byte list \<Rightarrow> byte list"
    using that error_bytes_not_mp3 [of msg]
    by (intro trial_succeeded) simp_all
  show ?thesis
    by (intro conjI impI t aes_ecb_rejected aes_cbc_rejected aes_ctr_rejected error_bytes_not_mp3)
qed

theorem aes_rejected_key_error_text_witness:
  "aes_ecb_decrypt length_checking_aes [0x41] [1, 2, 3, 4, 5]
     = error_bytes ''Incorrect AES key length (5 bytes)''
   \<and> aes_cbc_decrypt length_checking_aes [0x41] [1, 2, 3, 4, 5] None
     = error_bytes ''Incorrect AES key length (5 bytes)''
   \<and> aes_ctr_decrypt length_checking_aes [0x41] [1, 2, 3, 4, 5] None
     = error_bytes ''Incorrect AES key length (5 bytes)''
   \<and> \<not> is_valid_mp3 (error_bytes ''Incorrect AES key length (5 bytes)'')"
proof -
  have l5: "length [1, 2, 3, 4, 5 :: byte] = 5" by simp
  have "length [1, 2, 3, 4, 5 :: byte] \<notin> {16, 24, 32}"
    unfolding l5 by simp
  then have "aes_new length_checking_aes [1, 2, 3, 4, 5] mode
      = Inl (''Incorrect AES key length ('' @ decimal (length [1, 2, 3, 4, 5 :: byte]) @ '' bytes)'')"
    for mode
    by (rule length_checking_aes_rejects)
  then have r: "aes_new length_checking_aes [1, 2, 3, 4, 5] mode
      = Inl ''Incorrect AES key length (5 bytes)''" for mode
    unfolding l5 by (simp add: decimal_digit)
  from aes_rejected_key_error_text
    [where L = length_checking_aes and key = "[1, 2, 3, 4, 5]"
       and msg = "''Incorrect AES key length (5 bytes)''" and data = "[0x41]"
       and w = "\<lambda>n. True" and n = AES128ECB]
    r
  show ?thesis by simp
qed

text \<open>
  The claim that a rejected key yields a structured error, distinguishable from a
  decrypted plaintext, fails: for the 5-byte key \<open>b'\x01\x02\x03\x04\x05'\<close> the ECB
  function returns the byte string \<open>Error: Incorrect AES key length (5 bytes)\<close>, and the
  trial is logged with the events of a decryption whose output is not an MP3 file.
\<close>

theorem aes_rejected_key_counterexample:
  "aes_ecb_decrypt length_checking_aes [0x41] [1, 2, 3, 4, 5]
     = encode ''Error: Incorrect AES key length (5 bytes)''
   \<and> log (trial (\<lambda>n. True) AES128ECB (\<lambda>d k. Inr (aes_ecb_decrypt length_checking_aes d k))
            [0x41] [1, 2, 3, 4, 5] empty_state)
     = [Header AES128ECB,
        DecryptedHex (take 32 (encode ''Error: Incorrect AES key length (5 bytes)'')),
        DecryptedAscii (take 32 (encode ''Error: Incorrect AES key length (5 bytes)'')),
        NotValidMp3]"
proof -
  have l5: "length [1, 2, 3, 4, 5 :: byte] = 5" by simp
  have "length [1, 2, 3, 4, 5 :: byte] \<notin> {16, 24, 32}"
    unfolding l5 by simp
  then have "aes_new length_checking_aes [1, 2, 3, 4, 5] MODE_ECB
      = Inl (''Incorrect AES key length ('' @ decimal (length [1, 2, 3, 4, 5 :: byte]) @ '' bytes)'')"
    by (rule length_checking_aes_rejects)
  then have r: "aes_new length_checking_aes [1, 2, 3, 4, 5] MODE_ECB
      = Inl ''Incorrect AES key length (5 bytes)''"
    unfolding l5 by (simp add: decimal_digit)
  have e: "aes_ecb_decrypt length_checking_aes [0x41] [1, 2, 3, 4, 5]
      = error_bytes ''Incorrect AES key length (5 bytes)''"
    using r by (rule aes_ecb_rejected)
  have t: "log (trial (\<lambda>n. True) AES128ECB (\<lambda>d k. Inr (aes_ecb_decrypt length_checking_aes d k))
            [0x41] [1, 2, 3, 4, 5] empty_state)
     = [Header AES128ECB,
        DecryptedHex (take 32 (error_bytes ''Incorrect AES key length (5 bytes)'')),
        DecryptedAscii (take 32 (error_bytes ''Incorrect AES key length (5 bytes)'')),
        NotValidMp3]"
    using e error_bytes_not_mp3 [of "''Incorrect AES key length (5 bytes)''"]
    by (intro trial_succeeded) simp_all
  have b: "error_bytes ''Incorrect AES key length (5 bytes)''
      = encode ''Error: Incorrect AES key length (5 bytes)''"
    by (simp add: error_bytes_def)
  from e t show ?thesis by (simp only: b simp_thms)
qed

section \<open>Properties of the trial loop\<close>

lemma xor_decrypt_empty_key: "data \<noteq> [] \<Longrightarrow> xor_decrypt data [] = Inl ZeroDivisionError"
  by (cases data) (simp_all add: xor_decrypt_def)

lemma rc4_decrypt_empty_key: "rc4_decrypt data [] = Inl ZeroDivisionError"
  by (simp only: rc4_decrypt_def ksa_empty_key sum.case)

lemma rc4mi_decrypt_empty_key: "rc4mi_decrypt data [] = Inl ZeroDivisionError"
  by (simp only: rc4mi_decrypt_def ksa_empty_key sum.case)




text \<open>
  C4 (as amended).  With a zero-length key, \<open>xor_decrypt\<close> raises \<open>ZeroDivisionError\<close>
  from the modulo for every non-empty ciphertext and returns the empty byte string for
  the empty ciphertext; \<open>rc4_decrypt\<close> and \<open>rc4mi_decrypt\<close> raise \<open>ZeroDivisionError\<close> for
  every ciphertext.  There is no explicit check and no dedicated empty-key error.  The
  trial loop records the exception as the failure of that trial.
\<close>

theorem empty_key_zero_division:
  "(data \<noteq> [] \<longrightarrow> xor_decrypt data [] = Inl ZeroDivisionError)
   \<and> xor_decrypt [] [] = Inr []
   \<and> rc4_decrypt data [] = Inl ZeroDivisionError
   \<and> rc4mi_decrypt data [] = Inl ZeroDivisionError
   \<and> (data \<noteq> [] \<longrightarrow>
        log (trial w n1 xor_decrypt data [] empty_state) = [Header n1, DecryptFailed ZeroDivisionError])
   \<and> log (trial w n2 rc4_decrypt data [] empty_state) = [Header n2, DecryptFailed ZeroDivisionError]
   \<and> log (trial w n3 rc4mi_decrypt data [] empty_state) = [Header n3, DecryptFailed ZeroDivisionError]"
  by (simp add: xor_decrypt_empty_key rc4_decrypt_empty_key rc4mi_decrypt_empty_key trial_failed)
    (simp add: xor_decrypt_def)

theorem empty_key_zero_division_witness:
  "xor_decrypt [0x41] [] = Inl ZeroDivisionError
   \<and> rc4_decrypt [0x41] [] = Inl ZeroDivisionError
   \<and> rc4mi_decrypt [0x41] [] = Inl ZeroDivisionError
   \<and> log (trial (\<lambda>n. True) SimpleXOR xor_decrypt [0x41] [] empty_state)
       = [Header SimpleXOR, DecryptFailed ZeroDivisionError]"
  using empty_key_zero_division [of "[0x41]" "\<lambda>n. True" SimpleXOR StandardRC4 XiaomiRC4]
  by simp

text \<open>
  The claim that the XOR primitive fails for every ciphertext when the key is empty does
  not hold for the empty ciphertext: the loop body, and with it the modulo, is never run.
\<close>

theorem xor_empty_key_counterexample:
  "xor_decrypt [] [] = Inr []"
  by (simp add: xor_decrypt_def)

section \<open>Properties of the key handling\<close>






subsection \<open>Evaluating MD5\<close>



























end
